theory Spec2Isabelle
  imports Main
begin

section \<open>Data model of \<open>src/components/DataTable.tsx\<close>\<close>

text \<open>
  The component \<open>ArtworkTable\<close> keeps its data in React state cells and changes them from
  asynchronous handlers.  The embedding below is a state-passing model: the state cells are
  the fields of one record, every handler is a function from the state at the moment the
  handler is invoked to the state after it has finished (all its awaits resolved).  The
  closure variables of a handler (\<open>pageCache\<close>, \<open>rows\<close>, \<open>first\<close>, \<open>selectCount\<close>) are the
  values of the render in which the handler was created; with one handler running at a
  time this is the state at invocation.  Overlapping invocations of two handlers are not
  modelled.  The only concurrency inside one handler is the fan-out of \<open>prefetchPages\<close>,
  which is modelled with an explicit arrival order of the responses.

  JavaScript numbers are modelled as \<open>int\<close>: page numbers, offsets, page sizes and counts
  are integers in every use of the component.  \<open>null\<close> and \<open>undefined\<close> are both \<open>None\<close>.
\<close>

record Artworks =
  id_field :: "string option"
  title :: "string option"
  place_of_origin :: "string option"
  artist_display :: "string option"
  inscriptions :: "string option"
  date_start :: "int option"
  date_end :: "int option"

text \<open>
  An element of \<open>data.data\<close> in the response body: the seven fields the component reads
  and whatever else the remote source sends along.
\<close>

record api_item = Artworks +
  other_fields :: "(string \<times> string) list"

text \<open>The object literal of the two \<open>data.data.map\<close> calls.\<close>

definition mapItem :: "api_item \<Rightarrow> Artworks" where
  "mapItem item =
     \<lparr> id_field = id_field item,
       title = title item,
       place_of_origin = place_of_origin item,
       artist_display = artist_display item,
       inscriptions = inscriptions item,
       date_start = date_start item,
       date_end = date_end item \<rparr>"

text \<open>
  What one \<open>fetch\<close> followed by \<open>response.json()\<close> can give.  \<open>NetworkError\<close>: the promise of
  \<open>fetch\<close> rejects.  \<open>JsonError\<close>: the promise of \<open>response.json()\<close> rejects.  \<open>Body d p\<close>: a
  body was parsed; \<open>d\<close> is \<open>None\<close> when \<open>data.data.map(...)\<close> throws (no \<open>data\<close> member, not an
  array, an element that is \<open>null\<close>), \<open>p\<close> is \<open>None\<close> when reading \<open>data.pagination.total\<close>
  throws (no \<open>pagination\<close> member), and \<open>Some n\<close> with the total \<open>n\<close> otherwise.
\<close>

datatype response = NetworkError | JsonError | Body "api_item list option" "int option"

text \<open>
  The remote source: the answer to the \<open>n\<close>-th request ever issued (counting from 0), for a
  page number and a limit.  The index lets the source answer the same request differently
  at different times.
\<close>

type_synonym remote = "nat \<Rightarrow> int \<Rightarrow> int \<Rightarrow> response"

datatype console_entry = ErrorFetching | ErrorPrefetching int | ErrorBulk

text \<open>
  The state cells of the component, in the order of their \<open>useState\<close> calls, followed by the
  two observable effects outside the component: the requests sent (page, limit) and the
  lines written with \<open>console.error\<close>.
\<close>

record state =
  artworks :: "Artworks list"
  selectedArtworks :: "Artworks list"
  rowClick :: bool
  loading :: bool
  first :: int
  rows :: int
  totalRecords :: int
  pageCache :: "int \<rightharpoonup> Artworks list"
  isSelecting :: bool
  selectCount :: "int option"
  requests :: "(int \<times> int) list"
  console :: "console_entry list"

definition initial_state :: state where
  "initial_state =
     \<lparr> artworks = [], selectedArtworks = [], rowClick = True, loading = True,
       first = 0, rows = 12, totalRecords = 0, pageCache = Map.empty,
       isSelecting = False, selectCount = None, requests = [], console = [] \<rparr>"

section \<open>The page-set planner\<close>




text \<open>
  \<open>pagesLoop\<close> is the same loop without the limit, a partial function: \<open>Some pages\<close> when
  the loop is left by its condition, \<open>None\<close> when it never is.  The two forms agree whenever
  the plan fits into an array, and a loop that is never left by its condition ends with
  \<open>RangeError\<close> at every limit (\<open>pagesLoopBounded_fits\<close> and \<open>pagesLoopBounded_throws\<close> below).
  \<open>calculatePagesNeeded\<close> is stated on this form, so that no limit of a particular engine
  enters the plans: \<open>None\<close> is a call that returns no plan, the call that ends with the
  \<open>RangeError\<close> of \<open>pages.push\<close>.
\<close>

partial_function (option) pagesLoop :: "int \<Rightarrow> int list \<Rightarrow> int \<Rightarrow> int \<Rightarrow> int list option" where
  "pagesLoop rws pages remaining page =
     (if remaining > 0 then pagesLoop rws (pages @ [page]) (remaining - rws) (page + 1)
      else Some pages)"

declare pagesLoop.simps [code]

definition calculatePagesNeeded :: "int \<Rightarrow> int \<Rightarrow> int \<Rightarrow> int list option" where
  "calculatePagesNeeded rws count currentPage = pagesLoop rws [] count currentPage"


section \<open>The page fetcher\<close>

text \<open>
  The statements of the \<open>try\<close> block that the two fetching paths share: the body is turned
  into records by \<open>data.data.map\<close>.  \<open>None\<close>: an exception reached the \<open>catch\<close> before any
  record list existed.
\<close>

definition decodePage :: "response \<Rightarrow> Artworks list option" where
  "decodePage r = (case r of Body (Some items) p \<Rightarrow> Some (map mapItem items) | _ \<Rightarrow> None)"

definition paginationTotal :: "response \<Rightarrow> int option" where
  "paginationTotal r = (case r of Body d p \<Rightarrow> p | _ \<Rightarrow> None)"

text \<open>
  \<open>fetchArtworks(page, pageSize)\<close>.  An array is truthy, so \<open>if (pageCache[page])\<close> tests
  whether the key is present.  On a miss the three setters are called in the order of the
  source: \<open>setPageCache\<close>, \<open>setArtworks\<close>, then \<open>setTotalRecords(data.pagination.total)\<close>,
  whose argument can throw after the first two have been called.
\<close>

definition fetchArtworks :: "remote \<Rightarrow> int \<Rightarrow> int \<Rightarrow> state \<Rightarrow> state" where
  "fetchArtworks net page pageSize s =
     (case pageCache s page of
        Some cached \<Rightarrow> s\<lparr>artworks := cached, loading := False\<rparr>
      | None \<Rightarrow>
          (let s1 = s\<lparr>loading := True, requests := requests s @ [(page, pageSize)]\<rparr>;
               r = net (length (requests s)) page pageSize
           in case decodePage r of
                None \<Rightarrow> s1\<lparr>console := console s1 @ [ErrorFetching], loading := False\<rparr>
              | Some mappedData \<Rightarrow>
                  (let s2 = s1\<lparr>pageCache := (pageCache s1)(page \<mapsto> mappedData),
                                artworks := mappedData\<rparr>
                   in case paginationTotal r of
                        Some n \<Rightarrow> s2\<lparr>totalRecords := n, loading := False\<rparr>
                      | None \<Rightarrow> s2\<lparr>console := console s2 @ [ErrorFetching],
                                     loading := False\<rparr>)))"

text \<open>The effect run once after the first render: \<open>fetchArtworks(1, 12)\<close>.\<close>

definition mount :: "remote \<Rightarrow> state" where
  "mount net = fetchArtworks net 1 12 initial_state"

record DataTablePageEvent =
  ev_first :: "int option"
  ev_rows :: "int option"
  ev_page :: "int option"

definition onPage :: "remote \<Rightarrow> DataTablePageEvent \<Rightarrow> state \<Rightarrow> state" where
  "onPage net event s =
     (let nextPage = (case ev_page event of Some p \<Rightarrow> p | None \<Rightarrow> 0) + 1;
          s1 = s\<lparr>first := (case ev_first event of Some f \<Rightarrow> f | None \<Rightarrow> 0),
                 rows := (case ev_rows event of Some r \<Rightarrow> r | None \<Rightarrow> 12)\<rparr>
      in fetchArtworks net nextPage (case ev_rows event of Some r \<Rightarrow> r | None \<Rightarrow> 12) s1)"

definition onSelectionChange :: "Artworks list option \<Rightarrow> state \<Rightarrow> state" where
  "onSelectionChange v s = s\<lparr>selectedArtworks := (case v of Some sel \<Rightarrow> sel | None \<Rightarrow> [])\<rparr>"

section \<open>Parallel prefetch\<close>

text \<open>
  \<open>pageNumbers.map(async (pageNum) => ...)\<close> runs every callback up to its first \<open>await\<close>,
  in the order of \<open>pageNumbers\<close>: a cached page is copied into \<open>newCache\<close> at once, for any
  other page the request is sent.  \<open>prefetchStart\<close> is that synchronous part; the second
  component collects the requests in flight, each with its index at the remote source.
\<close>

definition prefetchStart ::
  "state \<Rightarrow> int \<Rightarrow> (int \<rightharpoonup> Artworks list) \<times> (nat \<times> int) list
     \<Rightarrow> (int \<rightharpoonup> Artworks list) \<times> (nat \<times> int) list" where
  "prefetchStart s pageNum acc =
     (case acc of (newCache, pending) \<Rightarrow>
        (case pageCache s pageNum of
           Some cached \<Rightarrow> (newCache(pageNum \<mapsto> cached), pending)
         | None \<Rightarrow> (newCache, pending @ [(length (requests s) + length pending, pageNum)])))"

text \<open>
  The rest of one callback, run when its response arrives: the \<open>try\<close> block writes
  \<open>newCache[pageNum]\<close>, the \<open>catch\<close> block writes a console line.
\<close>

definition prefetchSettle ::
  "remote \<Rightarrow> int \<Rightarrow> nat \<times> int \<Rightarrow> (int \<rightharpoonup> Artworks list) \<times> console_entry list
     \<Rightarrow> (int \<rightharpoonup> Artworks list) \<times> console_entry list" where
  "prefetchSettle net rws req acc =
     (case req of (n, pageNum) \<Rightarrow>
        (case acc of (newCache, errs) \<Rightarrow>
           (case decodePage (net n pageNum rws) of
              Some mappedData \<Rightarrow> (newCache(pageNum \<mapsto> mappedData), errs)
            | None \<Rightarrow> (newCache, errs @ [ErrorPrefetching pageNum]))))"

text \<open>
  \<open>prefetchPages(pageNumbers)\<close>.  The responses arrive in any order: \<open>latency\<close> gives each
  request (by its index) an arrival time, and the callbacks are resumed in the order of
  these times.  After \<open>Promise.all\<close> the new entries are spread over the cache,
  \<open>{...prev, ...newCache}\<close>, and \<open>newCache\<close> is returned.
\<close>

definition prefetchPages ::
  "(nat \<Rightarrow> nat) \<Rightarrow> remote \<Rightarrow> int list \<Rightarrow> state \<Rightarrow> (int \<rightharpoonup> Artworks list) \<times> state" where
  "prefetchPages latency net pageNumbers s =
     (case fold (prefetchStart s) pageNumbers (Map.empty, []) of (started, pending) \<Rightarrow>
        (case fold (prefetchSettle net (rows s))
                (sort_key (\<lambda>req. latency (fst req)) pending) (started, []) of
           (newCache, errs) \<Rightarrow>
             (newCache,
              s\<lparr>pageCache := pageCache s ++ newCache,
                requests := requests s @ map (\<lambda>req. (snd req, rows s)) pending,
                console := console s @ errs\<rparr>)))"

section \<open>The bulk selector\<close>

text \<open>
  \<open>xs.slice(0, e)\<close>: a negative end counts from the end of the array, an end beyond the
  length stops at the length.
\<close>

definition slice0 :: "'a list \<Rightarrow> int \<Rightarrow> 'a list" where
  "slice0 xs e = (if e < 0 then take (nat (int (length xs) + e)) xs else take (nat e) xs)"

text \<open>
  The \<open>for (const pageNum of pagesToFetch)\<close> loop of \<open>handleAutoSelect\<close>, with its \<open>break\<close>.
  \<open>pageData\<close> is \<open>fetchedData[pageNum] || pageCache[pageNum] || []\<close>: the first of the two
  entries that is present.
\<close>

definition pageData :: "(int \<rightharpoonup> 'a list) \<Rightarrow> (int \<rightharpoonup> 'a list) \<Rightarrow> int \<Rightarrow> 'a list" where
  "pageData fetchedData cache pageNum =
     (case fetchedData pageNum of
        Some d \<Rightarrow> d
      | None \<Rightarrow> (case cache pageNum of Some d \<Rightarrow> d | None \<Rightarrow> []))"

text \<open>
  The records a cache holds for a page, none when the page is absent: \<open>cache[pageNum] || []\<close>.
\<close>

definition cachedPage :: "(int \<rightharpoonup> 'a list) \<Rightarrow> int \<Rightarrow> 'a list" where
  "cachedPage cache pageNum = (case cache pageNum of Some d \<Rightarrow> d | None \<Rightarrow> [])"

fun selectLoop ::
  "(int \<rightharpoonup> 'a list) \<Rightarrow> (int \<rightharpoonup> 'a list) \<Rightarrow> int list \<Rightarrow> 'a list \<Rightarrow> int \<Rightarrow> 'a list" where
  "selectLoop fetchedData cache [] selected remaining = selected"
| "selectLoop fetchedData cache (pageNum # rest) selected remaining =
     (let toTake = min remaining (int (length (pageData fetchedData cache pageNum)));
          selected' = selected @ slice0 (pageData fetchedData cache pageNum) toTake;
          remaining' = remaining - toTake
      in if remaining' \<le> 0 then selected'
         else selectLoop fetchedData cache rest selected' remaining')"

text \<open>
  \<open>handleAutoSelect()\<close>, with its \<open>try\<close>, \<open>catch\<close> and \<open>finally\<close>.  The only statement of
  the \<open>try\<close> block that can throw is the call of the planner (\<open>prefetchPages\<close> catches per
  page): when the planner returns no plan, its \<open>RangeError\<close> is caught, one line is written
  to the console, \<open>finally\<close> clears the busy flag and the handler returns with the
  selection untouched.  The handler returns in every case, so the result is always \<open>Some\<close>.
  \<open>Math.floor(first / rows)\<close> is \<open>div\<close> on \<open>int\<close> for \<open>rows \<noteq> 0\<close>; for \<open>rows = 0\<close> the
  quotient is not a number in the source, and the planner, entered with a positive count,
  returns no plan whatever the page.
\<close>

definition handleAutoSelect :: "(nat \<Rightarrow> nat) \<Rightarrow> remote \<Rightarrow> state \<Rightarrow> state option" where
  "handleAutoSelect latency net s =
     (case selectCount s of
        None \<Rightarrow> Some s
      | Some cnt \<Rightarrow>
          if cnt \<le> 0 then Some s
          else
            (let s1 = s\<lparr>isSelecting := True\<rparr>;
                 currentPage = first s div rows s + 1
             in case calculatePagesNeeded (rows s) cnt currentPage of
                  None \<Rightarrow>
                    Some (s1\<lparr>console := console s1 @ [ErrorBulk], isSelecting := False\<rparr>)
                | Some pagesToFetch \<Rightarrow>
                    (case prefetchPages latency net pagesToFetch s1 of
                       (fetchedData, s2) \<Rightarrow>
                         Some (s2\<lparr>selectedArtworks :=
                                     selectLoop fetchedData (pageCache s) pagesToFetch [] cnt,
                                   isSelecting := False\<rparr>))))"

section \<open>The remote source and example inputs\<close>

text \<open>
  The remote source is an external service, not code of the repository.  \<open>serve ds\<close> is a
  source that holds the list \<open>ds\<close> and answers every request as the listing endpoint is
  used by the component (\<open>?page=...&limit=...\<close>): the records of the 1-based page at the
  requested size, in the order of the list, and the total number of records.
\<close>

definition datasetPage :: "'a list \<Rightarrow> int \<Rightarrow> int \<Rightarrow> 'a list" where
  "datasetPage ds limit page = take (nat limit) (drop (nat ((page - 1) * limit)) ds)"

definition serve :: "api_item list \<Rightarrow> remote" where
  "serve ds n page limit = Body (Some (datasetPage ds limit page)) (Some (int (length ds)))"

text \<open>A source that cannot be reached, and a source on which page 2 alone fails.\<close>

definition net_down :: remote where
  "net_down n page limit = NetworkError"

definition net_page2_down :: "api_item list \<Rightarrow> remote" where
  "net_page2_down ds n page limit = (if page = 2 then NetworkError else serve ds n page limit)"

text \<open>Two arrival orders: in the order of the requests, and the later request first.\<close>

definition in_order :: "nat \<Rightarrow> nat" where
  "in_order n = n"

definition reversed :: "nat \<Rightarrow> nat" where
  "reversed n = 100 - n"

definition artwork :: "int \<Rightarrow> api_item" where
  "artwork k =
     \<lparr> id_field = Some ''artwork'', title = Some ''Untitled'', place_of_origin = None,
       artist_display = None, inscriptions = None, date_start = Some k, date_end = None,
       other_fields = [(''image_id'', ''none'')] \<rparr>"

definition dataset :: "int \<Rightarrow> api_item list" where
  "dataset n = map artwork [1 .. n]"

definition select_state :: "int \<Rightarrow> int \<Rightarrow> int option \<Rightarrow> state" where
  "select_state pageSize offset cnt =
     initial_state\<lparr>first := offset, rows := pageSize, selectCount := cnt\<rparr>"

text \<open>
  A session of the component: mounted on a source that serves \<open>ds\<close>, then navigated to
  the second page of twelve rows, then a count typed into the panel.
\<close>

definition next_page_event :: DataTablePageEvent where
  "next_page_event = \<lparr> ev_first = Some 12, ev_rows = Some 12, ev_page = Some 1 \<rparr>"

definition on_page2 :: "api_item list \<Rightarrow> int \<Rightarrow> state" where
  "on_page2 ds cnt =
     (onPage (serve ds) next_page_event (mount (serve ds)))\<lparr>selectCount := Some cnt\<rparr>"

section \<open>Auxiliary facts: prefetch and selection loop\<close>

lemma prefetchStart_hit:
  "pageCache s q = Some c \<Longrightarrow> prefetchStart s q (m, pend) = (m(q \<mapsto> c), pend)"
  by (simp add: prefetchStart_def)

lemma prefetchStart_miss:
  "pageCache s q = None \<Longrightarrow>
   prefetchStart s q (m, pend) = (m, pend @ [(length (requests s) + length pend, q)])"
  by (simp add: prefetchStart_def)

lemma prefetchSettle_ok:
  "decodePage (net n p r) = Some d \<Longrightarrow> prefetchSettle net r (n, p) (m, e) = (m(p \<mapsto> d), e)"
  by (simp add: prefetchSettle_def)

lemma prefetchSettle_failed:
  "decodePage (net n p r) = None \<Longrightarrow>
   prefetchSettle net r (n, p) (m, e) = (m, e @ [ErrorPrefetching p])"
  by (simp add: prefetchSettle_def)

lemma prefetchStart_cache:
  "fst (fold (prefetchStart s) ps acc) p =
     (if p \<in> set ps \<and> pageCache s p \<noteq> None then pageCache s p else fst acc p)"
proof (induction ps arbitrary: acc)
  case Nil
  show ?case by simp
next
  case (Cons q ps)
  obtain m pend where acc: "acc = (m, pend)" by (cases acc)
  show ?case
    by (cases "pageCache s q") (auto simp: acc Cons.IH prefetchStart_hit prefetchStart_miss)
qed

lemma prefetchStart_pending:
  "snd (fold (prefetchStart s) ps acc) =
     snd acc @ enumerate (length (requests s) + length (snd acc))
                 (filter (\<lambda>p. pageCache s p = None) ps)"
proof (induction ps arbitrary: acc)
  case Nil
  show ?case by simp
next
  case (Cons q ps)
  obtain m pend where acc: "acc = (m, pend)" by (cases acc)
  show ?case
  proof (cases "pageCache s q")
    case None
    then show ?thesis
      by (simp add: acc Cons.IH prefetchStart_miss)
  next
    case (Some c)
    then show ?thesis
      by (simp add: acc Cons.IH prefetchStart_hit)
  qed
qed

lemma prefetchSettle_other:
  "p \<notin> snd ` set reqs \<Longrightarrow> fst (fold (prefetchSettle net r) reqs acc) p = fst acc p"
proof (induction reqs arbitrary: acc)
  case Nil
  show ?case by simp
next
  case (Cons q reqs)
  obtain m e where acc: "acc = (m, e)" by (cases acc)
  obtain k pg where q: "q = (k, pg)" by (cases q)
  from Cons.prems have ne: "pg \<noteq> p" and rest: "p \<notin> snd ` set reqs" by (auto simp: q)
  show ?case
    using ne
    by (cases "decodePage (net k pg r)")
       (simp_all add: acc q Cons.IH[OF rest] prefetchSettle_ok prefetchSettle_failed)
qed

lemma prefetchSettle_page:
  "distinct (map snd reqs) \<Longrightarrow> (n, p) \<in> set reqs \<Longrightarrow>
   fst (fold (prefetchSettle net r) reqs acc) p =
     (case decodePage (net n p r) of Some d \<Rightarrow> Some d | None \<Rightarrow> fst acc p)"
proof (induction reqs arbitrary: acc)
  case Nil
  then show ?case by simp
next
  case (Cons q reqs)
  obtain m e where acc: "acc = (m, e)" by (cases acc)
  obtain k pg where q: "q = (k, pg)" by (cases q)
  show ?case
  proof (cases "(n, p) = q")
    case True
    with Cons.prems have "p \<notin> snd ` set reqs" by (auto simp: q)
    then show ?thesis using True
      by (cases "decodePage (net k pg r)")
         (simp_all add: prefetchSettle_other acc q prefetchSettle_ok prefetchSettle_failed)
  next
    case False
    with Cons.prems have in_rest: "(n, p) \<in> set reqs" and d: "distinct (map snd reqs)"
      and ne: "pg \<noteq> p"
      by (auto simp: q rev_image_eqI)
    show ?thesis
      using ne
      by (cases "decodePage (net k pg r)")
         (simp_all add: Cons.IH[OF d in_rest] acc q prefetchSettle_ok prefetchSettle_failed
            split: option.splits)
  qed
qed

lemma prefetchSettle_perm:
  assumes "distinct (map snd xs)" "set ys = set xs" "distinct (map snd ys)"
  shows "fst (fold (prefetchSettle net r) ys (m, e)) = fst (fold (prefetchSettle net r) xs (m, e'))"
proof
  fix p
  show "fst (fold (prefetchSettle net r) ys (m, e)) p = fst (fold (prefetchSettle net r) xs (m, e')) p"
  proof (cases "p \<in> snd ` set xs")
    case False
    then show ?thesis using assms(2) by (simp add: prefetchSettle_other)
  next
    case True
    then obtain n where "(n, p) \<in> set xs" by auto
    then show ?thesis using assms by (simp add: prefetchSettle_page split: option.splits)
  qed
qed

lemma selectLoop_take:
  "0 < remaining \<Longrightarrow>
   selectLoop fetchedData cache ps selected remaining =
     selected @ take (nat remaining) (concat (map (pageData fetchedData cache) ps))"
proof (induction ps arbitrary: selected remaining)
  case Nil
  show ?case by simp
next
  case (Cons p ps)
  let ?d = "pageData fetchedData cache p"
  show ?case
  proof (cases "remaining \<le> int (length ?d)")
    case True
    then show ?thesis using Cons.prems
      by (simp add: slice0_def min_def Let_def)
  next
    case False
    then have r: "0 < remaining - int (length ?d)" by simp
    have n: "nat (remaining - int (length ?d)) = nat remaining - length ?d" by simp
    show ?thesis using False Cons.prems
      by (simp add: slice0_def min_def Let_def Cons.IH[OF r] n)
  qed
qed

lemma prefetchSettle_all_failed:
  "(\<And>n. (n, p) \<in> set reqs \<Longrightarrow> decodePage (net n p r) = None) \<Longrightarrow>
   fst (fold (prefetchSettle net r) reqs acc) p = fst acc p"
proof (induction reqs arbitrary: acc)
  case Nil
  show ?case by simp
next
  case (Cons q reqs)
  obtain m e where acc: "acc = (m, e)" by (cases acc)
  obtain k pg where q: "q = (k, pg)" by (cases q)
  have rest: "\<And>n. (n, p) \<in> set reqs \<Longrightarrow> decodePage (net n p r) = None"
    using Cons.prems by simp
  have hd: "pg = p \<Longrightarrow> decodePage (net k pg r) = None"
    using Cons.prems[of k] by (simp add: q)
  show ?case
    using hd
    by (cases "decodePage (net k pg r)")
       (auto simp: acc q Cons.IH[OF rest] prefetchSettle_ok prefetchSettle_failed)
qed

lemma prefetchSettle_console_mono:
  "set (snd acc) \<subseteq> set (snd (fold (prefetchSettle net r) reqs acc))"
proof (induction reqs arbitrary: acc)
  case Nil
  show ?case by simp
next
  case (Cons q reqs)
  obtain m e where acc: "acc = (m, e)" by (cases acc)
  obtain k pg where q: "q = (k, pg)" by (cases q)
  show ?case
  proof (cases "decodePage (net k pg r)")
    case None
    with Cons.IH[of "(m, e @ [ErrorPrefetching pg])"] show ?thesis
      by (simp add: acc q prefetchSettle_failed)
  next
    case (Some d)
    with Cons.IH[of "(m(pg \<mapsto> d), e)"] show ?thesis
      by (simp add: acc q prefetchSettle_ok)
  qed
qed

lemma prefetchSettle_console:
  "(n, p) \<in> set reqs \<Longrightarrow> decodePage (net n p r) = None \<Longrightarrow>
   ErrorPrefetching p \<in> set (snd (fold (prefetchSettle net r) reqs acc))"
proof (induction reqs arbitrary: acc)
  case Nil
  then show ?case by simp
next
  case (Cons q reqs)
  obtain m e where acc: "acc = (m, e)" by (cases acc)
  show ?case
  proof (cases "q = (n, p)")
    case True
    have "ErrorPrefetching p \<in> set (snd (m, e @ [ErrorPrefetching p]))" by simp
    with prefetchSettle_console_mono[of "(m, e @ [ErrorPrefetching p])" net r reqs]
    show ?thesis using True Cons.prems(2)
      by (auto simp: acc prefetchSettle_failed)
  next
    case False
    with Cons.prems have "(n, p) \<in> set reqs" by simp
    from Cons.IH[OF this Cons.prems(2)] show ?thesis by simp
  qed
qed

lemma map_snd_enumerate_fun: "map (\<lambda>req. f (snd req)) (enumerate n xs) = map f xs"
  by (induction xs arbitrary: n) simp_all

text \<open>\<open>prefetchPages\<close> with the requests in flight and the two phases written out.\<close>

lemma prefetchPages_eq:
  "prefetchPages latency net ps s =
     (let pending = enumerate (length (requests s)) (filter (\<lambda>p. pageCache s p = None) ps);
          res = fold (prefetchSettle net (rows s)) (sort_key (\<lambda>req. latency (fst req)) pending)
                  (fst (fold (prefetchStart s) ps (Map.empty, [])), [])
      in (fst res,
          s\<lparr>pageCache := pageCache s ++ fst res,
            requests := requests s @ map (\<lambda>p. (p, rows s)) (filter (\<lambda>p. pageCache s p = None) ps),
            console := console s @ snd res\<rparr>))"
proof -
  obtain started pending where f: "fold (prefetchStart s) ps (Map.empty, []) = (started, pending)"
    by (cases "fold (prefetchStart s) ps (Map.empty, [])")
  have p: "pending = enumerate (length (requests s)) (filter (\<lambda>p. pageCache s p = None) ps)"
    using prefetchStart_pending[of s ps "(Map.empty, [])"] by (simp add: f)
  have m: "map (\<lambda>req. (snd req, rows s)) pending
            = map (\<lambda>p. (p, rows s)) (filter (\<lambda>p. pageCache s p = None) ps)"
    unfolding p by (rule map_snd_enumerate_fun)
  show ?thesis
    unfolding prefetchPages_def f
    by (simp add: p[symmetric] m Let_def split: prod.splits)
qed

lemma enumerate_pages: "snd ` set (enumerate n xs) = set xs"
proof -
  have "snd ` set (enumerate n xs) = set (map snd (enumerate n xs))"
    by (simp only: set_map)
  then show ?thesis by simp
qed

lemma distinct_map_sort_key:
  assumes "distinct (map f xs)"
  shows "distinct (map f (sort_key k xs))"
proof -
  from assms have "distinct xs" "inj_on f (set xs)" by (simp_all add: distinct_map)
  then show ?thesis by (simp add: distinct_map)
qed

lemma pending_distinct:
  "distinct ps \<Longrightarrow> distinct (map snd (sort_key k (enumerate n (filter P ps))))"
  by (rule distinct_map_sort_key) simp

lemma prefetchPages_cache: "pageCache (snd (prefetchPages latency net ps s)) = pageCache s ++ fst (prefetchPages latency net ps s)"
  by (simp add: prefetchPages_eq Let_def)

lemma prefetchPages_requests:
  "requests (snd (prefetchPages latency net ps s)) =
     requests s @ map (\<lambda>p. (p, rows s)) (filter (\<lambda>p. pageCache s p = None) ps)"
  by (simp add: prefetchPages_eq Let_def)

lemma prefetchPages_frame:
  "totalRecords (snd (prefetchPages latency net ps s)) = totalRecords s"
  "artworks (snd (prefetchPages latency net ps s)) = artworks s"
  "selectedArtworks (snd (prefetchPages latency net ps s)) = selectedArtworks s"
  "isSelecting (snd (prefetchPages latency net ps s)) = isSelecting s"
  "loading (snd (prefetchPages latency net ps s)) = loading s"
  "first (snd (prefetchPages latency net ps s)) = first s"
  "rows (snd (prefetchPages latency net ps s)) = rows s"
  "selectCount (snd (prefetchPages latency net ps s)) = selectCount s"
  by (simp_all add: prefetchPages_eq Let_def)

lemma prefetchPages_cached:
  assumes "pageCache s p = Some c"
  shows "fst (prefetchPages latency net ps s) p = (if p \<in> set ps then Some c else None)"
proof -
  have "p \<notin> snd ` set (sort_key (\<lambda>req. latency (fst req))
            (enumerate (length (requests s)) (filter (\<lambda>p. pageCache s p = None) ps)))"
    using assms by (simp add: enumerate_pages)
  then show ?thesis
    using assms by (simp add: prefetchPages_eq Let_def prefetchSettle_other prefetchStart_cache)
qed

lemma prefetchPages_unplanned:
  assumes "p \<notin> set ps"
  shows "fst (prefetchPages latency net ps s) p = None"
proof -
  have "p \<notin> snd ` set (sort_key (\<lambda>req. latency (fst req))
            (enumerate (length (requests s)) (filter (\<lambda>p. pageCache s p = None) ps)))"
    using assms by (simp add: enumerate_pages)
  then show ?thesis
    using assms by (simp add: prefetchPages_eq Let_def prefetchSettle_other prefetchStart_cache)
qed

lemma prefetchPages_failed:
  assumes "pageCache s p = None" and "\<And>n. decodePage (net n p (rows s)) = None"
  shows "fst (prefetchPages latency net ps s) p = None"
  using assms by (simp add: prefetchPages_eq Let_def prefetchSettle_all_failed prefetchStart_cache)

lemma prefetchPages_fetched:
  assumes "distinct ps" "p \<in> set ps" "pageCache s p = None"
  shows "\<exists>n. length (requests s) \<le> n \<and> n < length (requests (snd (prefetchPages latency net ps s))) \<and>
             requests (snd (prefetchPages latency net ps s)) ! n = (p, rows s) \<and>
             fst (prefetchPages latency net ps s) p = decodePage (net n p (rows s))"
proof -
  let ?misses = "filter (\<lambda>p. pageCache s p = None) ps"
  let ?pending = "enumerate (length (requests s)) ?misses"
  let ?arrivals = "sort_key (\<lambda>req. latency (fst req)) ?pending"
  from assms have "p \<in> set ?misses" by simp
  then obtain i where i: "i < length ?misses" "?misses ! i = p"
    by (metis in_set_conv_nth)
  let ?n = "length (requests s) + i"
  have mem: "(?n, p) \<in> set ?arrivals"
    using i by (simp add: in_set_enumerate_eq)
  have d: "distinct (map snd ?arrivals)" using assms(1) by (rule pending_distinct)
  have "fst (prefetchPages latency net ps s) p =
          (case decodePage (net ?n p (rows s)) of Some d \<Rightarrow> Some d | None \<Rightarrow> None)"
    using assms(3)
    by (simp add: prefetchPages_eq Let_def prefetchSettle_page[OF d mem] prefetchStart_cache
          split: option.splits)
  then have v: "fst (prefetchPages latency net ps s) p = decodePage (net ?n p (rows s))"
    by (simp split: option.splits)
  have r: "requests (snd (prefetchPages latency net ps s)) ! ?n = (p, rows s)"
    using i by (simp add: prefetchPages_requests nth_append)
  have l: "?n < length (requests (snd (prefetchPages latency net ps s)))"
    using i by (simp add: prefetchPages_requests)
  from v r l show ?thesis by (intro exI[of _ ?n]) simp
qed

lemma prefetchPages_latency:
  assumes "distinct ps"
  shows "fst (prefetchPages l1 net ps s) = fst (prefetchPages l2 net ps s)"
proof -
  let ?pending = "enumerate (length (requests s)) (filter (\<lambda>p. pageCache s p = None) ps)"
  have "fst (fold (prefetchSettle net (rows s)) (sort_key (\<lambda>req. l1 (fst req)) ?pending) (m, []))
      = fst (fold (prefetchSettle net (rows s)) (sort_key (\<lambda>req. l2 (fst req)) ?pending) (m, []))" for m
    using assms by (intro prefetchSettle_perm pending_distinct) simp_all
  then show ?thesis by (simp add: prefetchPages_eq Let_def)
qed

section \<open>Auxiliary facts: the planner\<close>

lemma pagesLoop_closed:
  "1 \<le> rws \<Longrightarrow>
   pagesLoop rws pages remaining page =
     Some (pages @ [page .. page + (remaining + rws - 1) div rws - 1])"
proof (induction "nat remaining" arbitrary: remaining pages page rule: less_induct)
  case less
  show ?case
  proof (cases "remaining > 0")
    case False
    with less.prems have "(remaining + rws - 1) div rws \<le> (rws - 1) div rws"
      by (intro zdiv_mono1) simp_all
    with less.prems have "(remaining + rws - 1) div rws \<le> 0"
      by simp
    with False show ?thesis by (subst pagesLoop.simps) simp
  next
    case True
    with less.prems have lt: "nat (remaining - rws) < nat remaining" by simp
    have d: "(remaining + rws - 1) div rws = (remaining - rws + rws - 1) div rws + 1"
      using less.prems
      by (metis add.commute diff_add_cancel div_add_self2 not_one_le_zero add_diff_eq)
    have ge: "0 \<le> (remaining - rws + rws - 1) div rws"
      using True less.prems by (simp add: pos_imp_zdiv_nonneg_iff)
    have "pagesLoop rws pages remaining page = pagesLoop rws (pages @ [page]) (remaining - rws) (page + 1)"
      using True by (subst pagesLoop.simps) simp
    also have "\<dots> = Some ((pages @ [page]) @ [page + 1 .. page + 1 + (remaining - rws + rws - 1) div rws - 1])"
      using less.hyps[OF lt less.prems] .
    also have "(pages @ [page]) @ [page + 1 .. page + 1 + (remaining - rws + rws - 1) div rws - 1]
        = pages @ [page .. page + (remaining + rws - 1) div rws - 1]"
      using ge by (subst (2) upto_rec1) (simp_all add: d)
    finally show ?thesis .
  qed
qed

lemma pagesLoop_left:
  assumes "pagesLoop rws pages remaining page = Some ps"
  shows "remaining \<le> 0 \<or> 1 \<le> rws"
  using assms
proof (induction rule: pagesLoop.raw_induct[rotated 1, consumes 1])
  case (1 f rws pages remaining page ps)
  show ?case
  proof (cases "0 < remaining")
    case True
    with 1(2) have "f rws (pages @ [page]) (remaining - rws) (page + 1) = Some ps" by simp
    from 1(1)[OF this] True show ?thesis by arith
  next
    case False
    then show ?thesis by simp
  qed
qed

lemma pagesLoop_returns_iff:
  "(\<exists>ps. pagesLoop rws pages remaining page = Some ps) \<longleftrightarrow> (remaining \<le> 0 \<or> 1 \<le> rws)"
proof
  assume "\<exists>ps. pagesLoop rws pages remaining page = Some ps"
  then show "remaining \<le> 0 \<or> 1 \<le> rws" by (auto dest: pagesLoop_left)
next
  assume "remaining \<le> 0 \<or> 1 \<le> rws"
  then show "\<exists>ps. pagesLoop rws pages remaining page = Some ps"
  proof
    assume "remaining \<le> 0"
    then show ?thesis by (subst pagesLoop.simps) simp
  next
    assume "1 \<le> rws"
    then show ?thesis by (simp add: pagesLoop_closed)
  qed
qed

lemma ceil_pages:
  assumes "1 \<le> (p::int)"
  shows "((d + p - 1) div p - 1) * p < d \<and> d \<le> ((d + p - 1) div p) * p"
proof -
  have p: "0 < p" using assms by simp
  have e: "(d + p - 1) = ((d + p - 1) div p) * p + (d + p - 1) mod p" by simp
  have m: "0 \<le> (d + p - 1) mod p" "(d + p - 1) mod p < p"
    using p by simp_all
  have "((d + p - 1) div p - 1) * p = ((d + p - 1) div p) * p - p"
    by (simp add: algebra_simps)
  with e m show ?thesis by linarith
qed

section \<open>Auxiliary facts: the handlers\<close>

lemma pageData_cachedPage: "pageData fetchedData cache p = cachedPage (cache ++ fetchedData) p"
  by (simp add: pageData_def cachedPage_def map_add_def split: option.splits)

lemma prefetchPages_preserves:
  assumes "pageCache s p = Some pg"
  shows "pageCache (snd (prefetchPages latency net ps s)) p = Some pg"
  using assms by (simp add: prefetchPages_cache map_add_def prefetchPages_cached)

lemma plan_of_count:
  assumes "1 \<le> rws" "0 < c"
  shows "calculatePagesNeeded rws c page = Some [page .. page + (c + rws - 1) div rws - 1]"
  using assms by (simp add: calculatePagesNeeded_def pagesLoop_closed)

lemma handleAutoSelect_eq:
  assumes "1 \<le> rows s" "selectCount s = Some c" "0 < c"
    and "calculatePagesNeeded (rows s) c (first s div rows s + 1) = Some plan"
  shows "handleAutoSelect latency net s =
     Some ((snd (prefetchPages latency net plan (s\<lparr>isSelecting := True\<rparr>)))
            \<lparr>selectedArtworks :=
               take (nat c) (concat (map (cachedPage (pageCache
                  (snd (prefetchPages latency net plan (s\<lparr>isSelecting := True\<rparr>))))) plan)),
             isSelecting := False\<rparr>)"
proof -
  obtain nc s2 where R: "prefetchPages latency net plan (s\<lparr>isSelecting := True\<rparr>) = (nc, s2)"
    by (cases "prefetchPages latency net plan (s\<lparr>isSelecting := True\<rparr>)")
  have c: "pageCache s2 = pageCache s ++ nc"
    using prefetchPages_cache[of latency net plan "s\<lparr>isSelecting := True\<rparr>"] by (simp add: R)
  have "selectLoop nc (pageCache s) plan [] c = take (nat c) (concat (map (cachedPage (pageCache s2)) plan))"
    using assms(3) by (simp add: selectLoop_take pageData_cachedPage[abs_def] c)
  then show ?thesis
    using assms by (simp add: handleAutoSelect_def R)
qed

lemma fetchArtworks_hit:
  "pageCache s page = Some cached \<Longrightarrow>
   fetchArtworks net page pageSize s = s\<lparr>artworks := cached, loading := False\<rparr>"
  by (simp add: fetchArtworks_def)

lemma fetchArtworks_failed:
  "pageCache s page = None \<Longrightarrow> decodePage (net (length (requests s)) page pageSize) = None \<Longrightarrow>
   fetchArtworks net page pageSize s =
     s\<lparr>loading := False, requests := requests s @ [(page, pageSize)],
       console := console s @ [ErrorFetching]\<rparr>"
  by (simp add: fetchArtworks_def)

lemma fetchArtworks_ok:
  "pageCache s page = None \<Longrightarrow>
   decodePage (net (length (requests s)) page pageSize) = Some recs \<Longrightarrow>
   paginationTotal (net (length (requests s)) page pageSize) = Some n \<Longrightarrow>
   fetchArtworks net page pageSize s =
     s\<lparr>loading := False, requests := requests s @ [(page, pageSize)],
       pageCache := (pageCache s)(page \<mapsto> recs), artworks := recs, totalRecords := n\<rparr>"
  by (simp add: fetchArtworks_def)

lemma fetchArtworks_preserves:
  "pageCache s p = Some pg \<Longrightarrow> pageCache (fetchArtworks net page pageSize s) p = Some pg"
  by (cases "p = page") (auto simp: fetchArtworks_def Let_def split: option.splits)

lemma handleAutoSelect_preserves:
  assumes "pageCache s p = Some pg" "handleAutoSelect latency net s = Some s'"
  shows "pageCache s' p = Some pg"
proof (cases "selectCount s")
  case None
  with assms show ?thesis by (simp add: handleAutoSelect_def)
next
  case (Some c)
  show ?thesis
  proof (cases "c \<le> 0")
    case True
    with assms Some show ?thesis by (simp add: handleAutoSelect_def)
  next
    case False
    show ?thesis
    proof (cases "calculatePagesNeeded (rows s) c (first s div rows s + 1)")
      case None
      with assms(2) Some False
      have "s' = s\<lparr>console := console s @ [ErrorBulk], isSelecting := False\<rparr>"
        by (auto simp: handleAutoSelect_def)
      with assms(1) show ?thesis by simp
    next
      case plan: (Some plan)
      obtain nc s2 where R: "prefetchPages latency net plan (s\<lparr>isSelecting := True\<rparr>) = (nc, s2)"
        by (cases "prefetchPages latency net plan (s\<lparr>isSelecting := True\<rparr>)")
      from assms(2) Some False plan R
      have "s' = s2\<lparr>selectedArtworks := selectLoop nc (pageCache s) plan [] c,
                     isSelecting := False\<rparr>"
        by (auto simp: handleAutoSelect_def)
      moreover have "pageCache s2 p = Some pg"
        using prefetchPages_preserves[of "s\<lparr>isSelecting := True\<rparr>" p pg latency net plan] assms(1)
        by (simp add: R)
      ultimately show ?thesis by simp
    qed
  qed
qed

lemma mount_serve_cache:
  "pageCache (mount (serve ds)) 1 = Some (map mapItem (datasetPage ds 12 1))"
  by (simp add: mount_def fetchArtworks_def initial_state_def serve_def decodePage_def
        paginationTotal_def)

lemma prefetchPages_console_failed:
  assumes "p \<in> set ps" "pageCache s p = None" "\<And>n. decodePage (net n p (rows s)) = None"
  shows "ErrorPrefetching p \<in> set (console (snd (prefetchPages latency net ps s)))"
proof -
  let ?misses = "filter (\<lambda>p. pageCache s p = None) ps"
  let ?arrivals = "sort_key (\<lambda>req. latency (fst req)) (enumerate (length (requests s)) ?misses)"
  from assms have "p \<in> snd ` set ?arrivals" by (simp add: enumerate_pages)
  then obtain n where mem: "(n, p) \<in> set ?arrivals" by force
  have "decodePage (net n p (rows s)) = None" by (rule assms(3))
  with mem have "ErrorPrefetching p \<in> set (snd (fold (prefetchSettle net (rows s)) ?arrivals acc))" for acc
    by (rule prefetchSettle_console)
  then show ?thesis by (simp add: prefetchPages_eq Let_def)
qed

section \<open>Auxiliary facts: pages of a dataset\<close>

lemma concat_pages_nat:
  "concat (map (\<lambda>i. take r (drop ((a + i) * r) xs)) [0..<k]) = take (k * r) (drop (a * r) xs)"
proof (induction k)
  case 0
  show ?case by simp
next
  case (Suc k)
  have "Suc k * r = k * r + r" by simp
  then have "take (Suc k * r) (drop (a * r) xs)
      = take (k * r) (drop (a * r) xs) @ take r (drop (k * r) (drop (a * r) xs))"
    by (simp only: take_add)
  also have "drop (k * r) (drop (a * r) xs) = drop ((a + k) * r) xs"
    by (simp add: algebra_simps)
  finally show ?case by (simp add: Suc.IH)
qed

lemma upto_as_map: "[a .. a + int k - 1] = map (\<lambda>i. a + int i) [0..<k]"
proof (induction k)
  case 0
  show ?case by simp
next
  case (Suc k)
  have "[a .. a + int (Suc k) - 1] = [a .. a + int k - 1] @ [a + int k]"
    by (subst upto_rec2) (simp_all add: algebra_simps)
  then show ?case by (simp add: Suc.IH)
qed

lemma concat_datasetPages:
  assumes "1 \<le> r" "1 \<le> a" "0 \<le> k"
  shows "concat (map (datasetPage xs r) [a .. a + k - 1])
           = take (nat (k * r)) (drop (nat ((a - 1) * r)) xs)"
proof -
  obtain k' where k': "k = int k'" using assms(3) by (metis nonneg_int_cases)
  obtain a' where a': "a - 1 = int a'" using assms(2) by (metis diff_ge_0_iff_ge nonneg_int_cases)
  obtain r' where r': "r = int r'" using assms(1) by (metis nonneg_int_cases order_trans zero_le_one)
  have p: "datasetPage xs r (a + int i) = take r' (drop ((a' + i) * r') xs)" for i
  proof -
    have "(a + int i - 1) * r = int ((a' + i) * r')"
      using a' by (simp add: r' algebra_simps)
    then have "nat ((a + int i - 1) * r) = (a' + i) * r'" by (simp only: nat_int)
    moreover have "nat r = r'" by (simp add: r')
    ultimately show ?thesis by (simp only: datasetPage_def)
  qed
  have "concat (map (datasetPage xs r) [a .. a + k - 1])
      = concat (map (\<lambda>i. take r' (drop ((a' + i) * r') xs)) [0..<k'])"
    by (simp add: k' upto_as_map comp_def p)
  also have "\<dots> = take (k' * r') (drop (a' * r') xs)" by (rule concat_pages_nat)
  also have "k' * r' = nat (k * r)" by (simp add: k' r' nat_mult_distrib)
  also have "a' * r' = nat ((a - 1) * r)" by (simp add: a' r' nat_mult_distrib)
  finally show ?thesis .
qed

lemma map_datasetPage: "map f (datasetPage ds r p) = datasetPage (map f ds) r p"
  by (simp add: datasetPage_def take_map drop_map)

lemma handleAutoSelect_scan:
  assumes r: "1 \<le> rows s" and f: "0 \<le> first s" and sc: "selectCount s = Some c" and c: "0 < c"
    and cons: "\<And>p pg. pageCache s p = Some pg \<Longrightarrow> pg = map mapItem (datasetPage ds (rows s) p)"
  shows "\<exists>s'. handleAutoSelect latency (serve ds) s = Some s' \<and>
           selectedArtworks s'
             = take (nat c) (drop (nat (first s div rows s * rows s)) (map mapItem ds)) \<and>
           isSelecting s' = False"
proof -
  let ?r = "rows s"
  let ?cp = "first s div ?r + 1"
  let ?k = "(c + ?r - 1) div ?r"
  let ?plan = "[?cp .. ?cp + ?k - 1]"
  let ?s1 = "s\<lparr>isSelecting := True\<rparr>"
  let ?R = "prefetchPages latency (serve ds) ?plan ?s1"
  have plan: "calculatePagesNeeded ?r c ?cp = Some ?plan" using r c by (rule plan_of_count)
  have cp: "1 \<le> ?cp" using r f by (simp add: pos_imp_zdiv_nonneg_iff)
  have k: "c \<le> ?k * ?r" "0 \<le> ?k"
    using ceil_pages[OF r, of c] r c by (simp_all add: pos_imp_zdiv_nonneg_iff)
  have page: "cachedPage (pageCache (snd ?R)) p = datasetPage (map mapItem ds) ?r p"
    if "p \<in> set ?plan" for p
  proof (cases "pageCache s p")
    case (Some pg)
    then have "fst ?R p = Some pg" using that by (simp add: prefetchPages_cached)
    with cons[OF Some] show ?thesis
      by (simp add: prefetchPages_cache cachedPage_def map_datasetPage)
  next
    case None
    have "distinct ?plan" by simp
    from prefetchPages_fetched[OF this that, of ?s1 latency "serve ds"] None
    obtain n where "fst ?R p = decodePage (serve ds n p ?r)" by auto
    then show ?thesis
      by (simp add: prefetchPages_cache cachedPage_def map_datasetPage serve_def decodePage_def)
  qed
  have "concat (map (cachedPage (pageCache (snd ?R))) ?plan)
      = concat (map (datasetPage (map mapItem ds) ?r) ?plan)"
    using page by (intro arg_cong[where f = concat] map_cong) simp_all
  also have "\<dots> = take (nat (?k * ?r)) (drop (nat ((?cp - 1) * ?r)) (map mapItem ds))"
    using r cp k(2) by (rule concat_datasetPages)
  finally have "take (nat c) (concat (map (cachedPage (pageCache (snd ?R))) ?plan))
      = take (nat c) (drop (nat (first s div ?r * ?r)) (map mapItem ds))"
    using k(1) by (simp add: min_def)
  with handleAutoSelect_eq[OF r sc c plan, of latency "serve ds"] show ?thesis by simp
qed

lemma on_page2_fields:
  "rows (on_page2 ds cnt) = 12" "first (on_page2 ds cnt) = 12"
  "selectCount (on_page2 ds cnt) = Some cnt"
  "totalRecords (on_page2 ds cnt) = int (length ds)"
  "pageCache (on_page2 ds cnt) =
     [1 \<mapsto> map mapItem (datasetPage ds 12 1), 2 \<mapsto> map mapItem (datasetPage ds 12 2)]"
  by (simp_all add: on_page2_def onPage_def next_page_event_def mount_def fetchArtworks_def
        initial_state_def serve_def decodePage_def paginationTotal_def)

lemma concat_skip_empty:
  "(\<And>p. p \<in> F \<Longrightarrow> f p = []) \<Longrightarrow>
   concat (map f ps) = concat (map f (filter (\<lambda>p. p \<notin> F) ps))"
  by (induction ps) simp_all

lemma handleAutoSelect_throws:
  assumes "selectCount s = Some c" "0 < c" "\<not> 1 \<le> rows s"
  shows "handleAutoSelect latency net s
           = Some (s\<lparr>isSelecting := False, console := console s @ [ErrorBulk]\<rparr>)"
proof -
  have "\<not> (\<exists>ps. pagesLoop (rows s) [] c (first s div rows s + 1) = Some ps)"
    using assms by (simp add: pagesLoop_returns_iff)
  then have "calculatePagesNeeded (rows s) c (first s div rows s + 1) = None"
    by (simp add: calculatePagesNeeded_def)
  then show ?thesis using assms by (simp add: handleAutoSelect_def)
qed



lemma fetchArtworks_miss_requests:
  "pageCache s page = None \<Longrightarrow>
   requests (fetchArtworks net page pageSize s) = requests s @ [(page, pageSize)]"
  by (simp add: fetchArtworks_def Let_def split: option.splits)

section \<open>Properties: the planner\<close>

text \<open>
  Claim C2.  For a positive count, a start page of at least 1 and a page size of at least 1
  the planner returns the consecutive page numbers from the start page on, as many as the
  count divided by the page size, rounded up: the number \<open>k\<close> of pages is the one with
  \<open>(k - 1) * pageSize < desiredCount \<le> k * pageSize\<close>.  For a count of zero or less the
  plan is empty.  The three plans of the specification are computed.
\<close>

theorem calculatePagesNeeded_plan:
  "(0 < desiredCount \<and> 1 \<le> startPage \<and> 1 \<le> pageSize \<longrightarrow>
      (\<exists>k. (k - 1) * pageSize < desiredCount \<and> desiredCount \<le> k * pageSize \<and>
           calculatePagesNeeded pageSize desiredCount startPage
             = Some [startPage .. startPage + k - 1])) \<and>
   (desiredCount \<le> 0 \<longrightarrow> calculatePagesNeeded pageSize desiredCount startPage = Some []) \<and>
   calculatePagesNeeded 12 25 1 = Some [1, 2, 3] \<and>
   calculatePagesNeeded 12 12 1 = Some [1] \<and>
   calculatePagesNeeded 12 0 1 = Some []"
proof (intro conjI impI)
  assume a: "0 < desiredCount \<and> 1 \<le> startPage \<and> 1 \<le> pageSize"
  let ?k = "(desiredCount + pageSize - 1) div pageSize"
  have "calculatePagesNeeded pageSize desiredCount startPage = Some [startPage .. startPage + ?k - 1]"
    using a by (simp add: calculatePagesNeeded_def pagesLoop_closed)
  with ceil_pages[of pageSize desiredCount] a
  show "\<exists>k. (k - 1) * pageSize < desiredCount \<and> desiredCount \<le> k * pageSize \<and>
           calculatePagesNeeded pageSize desiredCount startPage = Some [startPage .. startPage + k - 1]"
    by blast
next
  assume "desiredCount \<le> 0"
  then show "calculatePagesNeeded pageSize desiredCount startPage = Some []"
    unfolding calculatePagesNeeded_def by (subst pagesLoop.simps) simp
next
  show "calculatePagesNeeded 12 25 1 = Some [1, 2, 3]"
    by (simp add: calculatePagesNeeded_def pagesLoop_closed upto_rec1)
  show "calculatePagesNeeded 12 12 1 = Some [1]"
    by (simp add: calculatePagesNeeded_def pagesLoop_closed upto_rec1)
  show "calculatePagesNeeded 12 0 1 = Some []"
    by (simp add: calculatePagesNeeded_def pagesLoop_closed)
qed

theorem calculatePagesNeeded_plan_witness:
  "((0::int) < 25 \<and> (1::int) \<le> 1 \<and> (1::int) \<le> 12) \<and>
   (\<exists>k. (k - 1) * 12 < (25::int) \<and> 25 \<le> k * 12 \<and>
        calculatePagesNeeded 12 25 1 = Some [1 .. 1 + k - 1]) \<and>
   ((-3::int) \<le> 0 \<and> calculatePagesNeeded 12 (-3) 1 = Some [])"
  using calculatePagesNeeded_plan[of 25 1 12] calculatePagesNeeded_plan[of "-3" 1 12]
  by simp




section \<open>Properties: the page fetcher and the page cache\<close>

text \<open>
  Claim C7, amended.  For a page present in the cache \<open>fetchArtworks\<close> shows the cached
  records, sends no request and leaves the cache as it is.  For a page absent from the
  cache whose fetch succeeds, the first call sends one request and shows the normalised
  records, and a second call in sequence changes nothing: it sends no request and shows the
  same records.  For a page absent from the cache whose fetch fails before a record list
  exists, the first call caches nothing and the second call sends the request again.
\<close>

theorem fetchArtworks_idempotent:
  "(pageCache s page = Some cached \<longrightarrow>
      requests (fetchArtworks net page pageSize s) = requests s \<and>
      artworks (fetchArtworks net page pageSize s) = cached \<and>
      pageCache (fetchArtworks net page pageSize s) = pageCache s) \<and>
   (pageCache s page = None \<and>
    net (length (requests s)) page pageSize = Body (Some items) (Some n) \<longrightarrow>
      artworks (fetchArtworks net page pageSize s) = map mapItem items \<and>
      requests (fetchArtworks net page pageSize s) = requests s @ [(page, pageSize)] \<and>
      fetchArtworks net page pageSize (fetchArtworks net page pageSize s)
        = fetchArtworks net page pageSize s) \<and>
   (pageCache s page = None \<and>
    decodePage (net (length (requests s)) page pageSize) = None \<longrightarrow>
      pageCache (fetchArtworks net page pageSize s) = pageCache s \<and>
      requests (fetchArtworks net page pageSize s) = requests s @ [(page, pageSize)] \<and>
      requests (fetchArtworks net page pageSize (fetchArtworks net page pageSize s))
        = requests s @ [(page, pageSize), (page, pageSize)])"
proof (intro conjI impI)
  assume "pageCache s page = Some cached"
  then have e: "fetchArtworks net page pageSize s = s\<lparr>artworks := cached, loading := False\<rparr>"
    by (rule fetchArtworks_hit)
  show "requests (fetchArtworks net page pageSize s) = requests s" by (simp add: e)
  show "artworks (fetchArtworks net page pageSize s) = cached" by (simp add: e)
  show "pageCache (fetchArtworks net page pageSize s) = pageCache s" by (simp add: e)
next
  assume a: "pageCache s page = None \<and>
    net (length (requests s)) page pageSize = Body (Some items) (Some n)"
  then have e: "fetchArtworks net page pageSize s =
     s\<lparr>loading := False, requests := requests s @ [(page, pageSize)],
       pageCache := (pageCache s)(page \<mapsto> map mapItem items), artworks := map mapItem items,
       totalRecords := n\<rparr>"
    by (intro fetchArtworks_ok) (simp_all add: decodePage_def paginationTotal_def)
  show "artworks (fetchArtworks net page pageSize s) = map mapItem items" by (simp add: e)
  show "requests (fetchArtworks net page pageSize s) = requests s @ [(page, pageSize)]"
    by (simp add: e)
  have "pageCache (fetchArtworks net page pageSize s) page = Some (map mapItem items)"
    by (simp add: e)
  from fetchArtworks_hit[OF this]
  show "fetchArtworks net page pageSize (fetchArtworks net page pageSize s)
        = fetchArtworks net page pageSize s"
    by (simp add: e)
next
  assume a: "pageCache s page = None \<and>
    decodePage (net (length (requests s)) page pageSize) = None"
  then have e: "fetchArtworks net page pageSize s =
     s\<lparr>loading := False, requests := requests s @ [(page, pageSize)],
       console := console s @ [ErrorFetching]\<rparr>"
    by (intro fetchArtworks_failed) simp_all
  show c: "pageCache (fetchArtworks net page pageSize s) = pageCache s" by (simp add: e)
  show r: "requests (fetchArtworks net page pageSize s) = requests s @ [(page, pageSize)]"
    by (simp add: e)
  from a c have "pageCache (fetchArtworks net page pageSize s) page = None" by simp
  from fetchArtworks_miss_requests[OF this, of net pageSize]
  show "requests (fetchArtworks net page pageSize (fetchArtworks net page pageSize s))
        = requests s @ [(page, pageSize), (page, pageSize)]"
    by (simp add: r)
qed

theorem fetchArtworks_idempotent_witness:
  "pageCache (mount (serve (dataset 3))) 1 = Some (map mapItem (datasetPage (dataset 3) 12 1)) \<and>
   requests (fetchArtworks net_down 1 12 (mount (serve (dataset 3))))
     = requests (mount (serve (dataset 3))) \<and>
   pageCache initial_state 1 = None \<and>
   serve (dataset 3) (length (requests initial_state)) 1 12
     = Body (Some (datasetPage (dataset 3) 12 1)) (Some 3) \<and>
   requests (fetchArtworks (serve (dataset 3)) 1 12 initial_state) = [(1, 12)] \<and>
   fetchArtworks (serve (dataset 3)) 1 12 (fetchArtworks (serve (dataset 3)) 1 12 initial_state)
     = fetchArtworks (serve (dataset 3)) 1 12 initial_state \<and>
   decodePage (net_page2_down (dataset 30) (length (requests initial_state)) 2 12) = None \<and>
   pageCache (fetchArtworks (net_page2_down (dataset 30)) 2 12 initial_state) 2 = None \<and>
   requests (fetchArtworks (net_page2_down (dataset 30)) 2 12
              (fetchArtworks (net_page2_down (dataset 30)) 2 12 initial_state))
     = [(2, 12), (2, 12)]"
  using fetchArtworks_idempotent[where s = "mount (serve (dataset 3))" and page = 1
          and cached = "map mapItem (datasetPage (dataset 3) 12 1)" and net = net_down
          and pageSize = 12]
    fetchArtworks_idempotent[where s = initial_state and page = 1 and net = "serve (dataset 3)"
          and pageSize = 12 and items = "datasetPage (dataset 3) 12 1" and n = 3]
    fetchArtworks_idempotent[where s = initial_state and page = 2
          and net = "net_page2_down (dataset 30)" and pageSize = 12]
  by (simp add: mount_serve_cache)
     (simp add: initial_state_def serve_def dataset_def net_page2_down_def decodePage_def)

text \<open>
  The claim as stated, without the success of the first fetch, fails on a source that
  cannot be reached: two calls in sequence send two requests.
\<close>

theorem fetchArtworks_twice_counterexample:
  "pageCache initial_state 1 = None \<and>
   requests (fetchArtworks net_down 1 12 (fetchArtworks net_down 1 12 initial_state))
     = [(1, 12), (1, 12)]"
  by (simp add: fetchArtworks_def initial_state_def net_down_def decodePage_def)

text \<open>
  Claim C3, amended.  A successful fetch by \<open>fetchArtworks\<close> of a page absent from the
  cache stores the normalised records under the page number and sets the total record
  count from the pagination metadata.  In \<open>prefetchPages\<close>, on a list of distinct page
  numbers, every page absent from the cache has a request of its own among the requests
  sent, and when the response to that request carries a record list the normalised records
  are stored under the page number.  \<open>prefetchPages\<close> never changes the total record
  count.
\<close>

theorem fetch_stores_page:
  "(pageCache s page = None \<and>
    net (length (requests s)) page pageSize = Body (Some items) (Some n) \<longrightarrow>
      pageCache (fetchArtworks net page pageSize s) page = Some (map mapItem items) \<and>
      totalRecords (fetchArtworks net page pageSize s) = n) \<and>
   (distinct ps \<and> p \<in> set ps \<and> pageCache s p = None \<longrightarrow>
      (\<exists>k. length (requests s) \<le> k \<and>
           k < length (requests (snd (prefetchPages latency net ps s))) \<and>
           requests (snd (prefetchPages latency net ps s)) ! k = (p, rows s) \<and>
           (\<forall>items' pg. net k p (rows s) = Body (Some items') pg \<longrightarrow>
              pageCache (snd (prefetchPages latency net ps s)) p = Some (map mapItem items')))) \<and>
   totalRecords (snd (prefetchPages latency net ps s)) = totalRecords s"
proof (intro conjI impI)
  assume a: "pageCache s page = None \<and>
    net (length (requests s)) page pageSize = Body (Some items) (Some n)"
  then have e: "fetchArtworks net page pageSize s =
     s\<lparr>loading := False, requests := requests s @ [(page, pageSize)],
       pageCache := (pageCache s)(page \<mapsto> map mapItem items), artworks := map mapItem items,
       totalRecords := n\<rparr>"
    by (intro fetchArtworks_ok) (simp_all add: decodePage_def paginationTotal_def)
  show "pageCache (fetchArtworks net page pageSize s) page = Some (map mapItem items)"
    by (simp add: e)
  show "totalRecords (fetchArtworks net page pageSize s) = n" by (simp add: e)
next
  let ?R = "prefetchPages latency net ps s"
  assume a: "distinct ps \<and> p \<in> set ps \<and> pageCache s p = None"
  then obtain k where k: "length (requests s) \<le> k" "k < length (requests (snd ?R))"
      "requests (snd ?R) ! k = (p, rows s)" "fst ?R p = decodePage (net k p (rows s))"
    using prefetchPages_fetched[of ps p s latency net] by blast
  have "pageCache (snd ?R) p = Some (map mapItem items')"
    if "net k p (rows s) = Body (Some items') pg" for items' pg
    using that k(4) by (simp add: prefetchPages_cache map_add_def decodePage_def)
  with k(1-3) show "\<exists>k. length (requests s) \<le> k \<and> k < length (requests (snd ?R)) \<and>
           requests (snd ?R) ! k = (p, rows s) \<and>
           (\<forall>items' pg. net k p (rows s) = Body (Some items') pg \<longrightarrow>
              pageCache (snd ?R) p = Some (map mapItem items'))"
    by blast
next
  show "totalRecords (snd (prefetchPages latency net ps s)) = totalRecords s"
    by (rule prefetchPages_frame)
qed

theorem fetch_stores_page_witness:
  "(pageCache initial_state 1 = None \<and>
    serve (dataset 3) (length (requests initial_state)) 1 12
      = Body (Some (datasetPage (dataset 3) 12 1)) (Some 3)) \<and>
   pageCache (fetchArtworks (serve (dataset 3)) 1 12 initial_state) 1
     = Some (map mapItem (datasetPage (dataset 3) 12 1)) \<and>
   totalRecords (fetchArtworks (serve (dataset 3)) 1 12 initial_state) = 3 \<and>
   (distinct [1, 2 :: int] \<and> (2 :: int) \<in> set [1, 2] \<and> pageCache initial_state 2 = None) \<and>
   (\<exists>k. length (requests initial_state) \<le> k \<and>
        k < length (requests (snd (prefetchPages reversed (serve (dataset 3)) [1, 2] initial_state))) \<and>
        requests (snd (prefetchPages reversed (serve (dataset 3)) [1, 2] initial_state)) ! k
          = (2, rows initial_state) \<and>
        (\<forall>items' pg. serve (dataset 3) k 2 (rows initial_state) = Body (Some items') pg \<longrightarrow>
           pageCache (snd (prefetchPages reversed (serve (dataset 3)) [1, 2] initial_state)) 2
             = Some (map mapItem items')))"
  using fetch_stores_page[where s = initial_state and page = 1 and net = "serve (dataset 3)"
          and pageSize = 12 and items = "datasetPage (dataset 3) 12 1" and n = 3
          and ps = "[1, 2]" and p = 2 and latency = reversed]
  by (simp add: initial_state_def serve_def dataset_def)

text \<open>
  The claim as stated fails on the prefetch path: the page is fetched and stored, the
  response says that there are 3 records, and the total record count is still the initial 0.
\<close>

theorem prefetch_total_counterexample:
  "pageCache initial_state 1 = None \<and>
   serve (dataset 3) 0 1 (rows initial_state) = Body (Some (datasetPage (dataset 3) 12 1)) (Some 3) \<and>
   pageCache (snd (prefetchPages in_order (serve (dataset 3)) [1] initial_state)) 1
     = Some (map mapItem (datasetPage (dataset 3) 12 1)) \<and>
   totalRecords (snd (prefetchPages in_order (serve (dataset 3)) [1] initial_state)) \<noteq> 3"
  by (simp add: prefetchPages_def prefetchStart_def prefetchSettle_def initial_state_def
        serve_def decodePage_def dataset_def)

text \<open>
  Claim C5, amended.  A fetch by \<open>fetchArtworks\<close> that fails before a record list exists
  leaves the cache and the rows on display as they were, clears the loading flag and
  writes one line to the console.  In \<open>prefetchPages\<close>, a planned page absent from the
  cache whose requests fail is absent from the returned map and from the cache afterwards,
  counts as an empty page in the selection loop, and a line naming the page is written to
  the console.  Both handlers return.
\<close>

theorem fetch_failure:
  "(pageCache s page = None \<and> decodePage (net (length (requests s)) page pageSize) = None \<longrightarrow>
      pageCache (fetchArtworks net page pageSize s) = pageCache s \<and>
      artworks (fetchArtworks net page pageSize s) = artworks s \<and>
      loading (fetchArtworks net page pageSize s) = False \<and>
      console (fetchArtworks net page pageSize s) = console s @ [ErrorFetching]) \<and>
   (p \<in> set ps \<and> pageCache s p = None \<and> (\<forall>k. decodePage (net k p (rows s)) = None) \<longrightarrow>
      fst (prefetchPages latency net ps s) p = None \<and>
      pageData (fst (prefetchPages latency net ps s)) (pageCache s) p = [] \<and>
      pageCache (snd (prefetchPages latency net ps s)) p = None \<and>
      ErrorPrefetching p \<in> set (console (snd (prefetchPages latency net ps s))))"
proof (intro conjI impI)
  assume a: "pageCache s page = None \<and> decodePage (net (length (requests s)) page pageSize) = None"
  then have e: "fetchArtworks net page pageSize s =
     s\<lparr>loading := False, requests := requests s @ [(page, pageSize)],
       console := console s @ [ErrorFetching]\<rparr>"
    by (intro fetchArtworks_failed) simp_all
  show "pageCache (fetchArtworks net page pageSize s) = pageCache s" by (simp add: e)
  show "artworks (fetchArtworks net page pageSize s) = artworks s" by (simp add: e)
  show "loading (fetchArtworks net page pageSize s) = False" by (simp add: e)
  show "console (fetchArtworks net page pageSize s) = console s @ [ErrorFetching]"
    by (simp add: e)
next
  let ?R = "prefetchPages latency net ps s"
  assume a: "p \<in> set ps \<and> pageCache s p = None \<and> (\<forall>k. decodePage (net k p (rows s)) = None)"
  then show n: "fst ?R p = None" by (intro prefetchPages_failed) simp_all
  from a n show "pageData (fst ?R) (pageCache s) p = []" by (simp add: pageData_def)
  from a n show "pageCache (snd ?R) p = None" by (simp add: prefetchPages_cache map_add_def)
  from a show "ErrorPrefetching p \<in> set (console (snd ?R))"
    by (intro prefetchPages_console_failed) simp_all
qed

theorem fetch_failure_witness:
  "(pageCache (mount (serve (dataset 3))) 2 = None \<and>
    decodePage (net_down (length (requests (mount (serve (dataset 3))))) 2 12) = None) \<and>
   pageCache (fetchArtworks net_down 2 12 (mount (serve (dataset 3))))
     = pageCache (mount (serve (dataset 3))) \<and>
   ((2 :: int) \<in> set [1, 2, 3] \<and> pageCache initial_state 2 = None \<and>
    (\<forall>k. decodePage (net_page2_down (dataset 30) k 2 (rows initial_state)) = None)) \<and>
   pageCache (snd (prefetchPages in_order (net_page2_down (dataset 30)) [1, 2, 3] initial_state)) 2
     = None \<and>
   ErrorPrefetching 2 \<in> set (console (snd
      (prefetchPages in_order (net_page2_down (dataset 30)) [1, 2, 3] initial_state)))"
  using fetch_failure[where s = "mount (serve (dataset 3))" and page = 2 and net = net_down
          and pageSize = 12]
    fetch_failure[where s = initial_state and p = 2 and ps = "[1, 2, 3]"
          and net = "net_page2_down (dataset 30)" and latency = in_order]
  by (simp add: mount_def fetchArtworks_def initial_state_def serve_def decodePage_def
        paginationTotal_def net_down_def net_page2_down_def)

text \<open>
  The claim as stated fails for \<open>fetchArtworks\<close>: page 1 is on display, the fetch of
  page 2 fails, and the rows on display are still the three records of page 1, not an
  empty page.
\<close>

theorem fetch_failure_counterexample:
  "pageCache (mount (serve (dataset 3))) 2 = None \<and>
   decodePage (net_down (length (requests (mount (serve (dataset 3))))) 2 12) = None \<and>
   artworks (fetchArtworks net_down 2 12 (mount (serve (dataset 3))))
     = map mapItem [artwork 1, artwork 2, artwork 3] \<and>
   artworks (fetchArtworks net_down 2 12 (mount (serve (dataset 3)))) \<noteq> []"
  by (simp add: mount_def fetchArtworks_def initial_state_def serve_def decodePage_def
        paginationTotal_def net_down_def dataset_def datasetPage_def upto_rec1)

text \<open>
  Claim C9.  A page that the cache maps to a record list is mapped to the same list after
  \<open>fetchArtworks\<close>, after \<open>prefetchPages\<close> on any list of page numbers, after a page
  navigation, after a manual selection change and after a bulk selection that returns.
\<close>

theorem pageCache_append_only:
  "pageCache s p = Some pg \<Longrightarrow>
     pageCache (fetchArtworks net page pageSize s) p = Some pg \<and>
     pageCache (snd (prefetchPages latency net ps s)) p = Some pg \<and>
     pageCache (onPage net event s) p = Some pg \<and>
     pageCache (onSelectionChange v s) p = Some pg \<and>
     (\<forall>s'. handleAutoSelect latency net s = Some s' \<longrightarrow> pageCache s' p = Some pg)"
proof (intro conjI allI impI)
  assume c: "pageCache s p = Some pg"
  show "pageCache (fetchArtworks net page pageSize s) p = Some pg"
    using c by (rule fetchArtworks_preserves)
  show "pageCache (snd (prefetchPages latency net ps s)) p = Some pg"
    using c by (rule prefetchPages_preserves)
  show "pageCache (onPage net event s) p = Some pg"
    using c by (simp add: onPage_def Let_def fetchArtworks_preserves)
  show "pageCache (onSelectionChange v s) p = Some pg"
    using c by (simp add: onSelectionChange_def)
  show "pageCache s' p = Some pg" if "handleAutoSelect latency net s = Some s'" for s'
    using c that by (rule handleAutoSelect_preserves)
qed

theorem pageCache_append_only_witness:
  "pageCache (on_page2 (dataset 30) 20) 1 = Some (map mapItem (datasetPage (dataset 30) 12 1)) \<and>
   pageCache (fetchArtworks net_down 3 12 (on_page2 (dataset 30) 20)) 1
     = Some (map mapItem (datasetPage (dataset 30) 12 1)) \<and>
   pageCache (snd (prefetchPages reversed net_down [1, 2, 3] (on_page2 (dataset 30) 20))) 1
     = Some (map mapItem (datasetPage (dataset 30) 12 1)) \<and>
   pageCache (onPage net_down next_page_event (on_page2 (dataset 30) 20)) 1
     = Some (map mapItem (datasetPage (dataset 30) 12 1)) \<and>
   (\<exists>s'. handleAutoSelect reversed net_down (on_page2 (dataset 30) 20) = Some s' \<and>
         pageCache s' 1 = Some (map mapItem (datasetPage (dataset 30) 12 1)))"
proof -
  let ?s = "on_page2 (dataset 30) 20"
  have c: "pageCache ?s 1 = Some (map mapItem (datasetPage (dataset 30) 12 1))"
    by (simp add: on_page2_fields)
  have "calculatePagesNeeded (rows ?s) 20 (first ?s div rows ?s + 1)
      = Some [first ?s div rows ?s + 1 .. first ?s div rows ?s + 1 + (20 + rows ?s - 1) div rows ?s - 1]"
    by (rule plan_of_count) (simp_all add: on_page2_fields)
  then obtain s' where "handleAutoSelect reversed net_down ?s = Some s'"
    using handleAutoSelect_eq[of ?s 20 _ reversed net_down] by (simp add: on_page2_fields)
  with pageCache_append_only[where s = ?s and p = 1
      and pg = "map mapItem (datasetPage (dataset 30) 12 1)" and net = net_down and page = 3
      and pageSize = 12 and latency = reversed and ps = "[1, 2, 3]" and event = next_page_event, OF c]
    c
  show ?thesis by blast
qed

section \<open>Properties: the bulk selector\<close>

text \<open>
  Claim C4.  When the desired count is absent, zero or negative, \<open>handleAutoSelect\<close>
  returns at once and the whole state is what it was: the selection, the page cache and
  the busy flag are unchanged, and no request has been added to the requests sent.
\<close>

theorem handleAutoSelect_rejects:
  "selectCount s = None \<or> (\<exists>c. selectCount s = Some c \<and> c \<le> 0) \<Longrightarrow>
   handleAutoSelect latency net s = Some s"
  by (auto simp: handleAutoSelect_def)

theorem handleAutoSelect_rejects_witness:
  "selectCount initial_state = None \<and>
   handleAutoSelect in_order net_down initial_state = Some initial_state \<and>
   selectCount (select_state 12 0 (Some 0)) = Some 0 \<and>
   handleAutoSelect in_order net_down (select_state 12 0 (Some 0)) = Some (select_state 12 0 (Some 0)) \<and>
   selectCount (select_state 12 0 (Some (- 5))) = Some (- 5) \<and>
   handleAutoSelect in_order net_down (select_state 12 0 (Some (- 5)))
     = Some (select_state 12 0 (Some (- 5)))"
  using handleAutoSelect_rejects[of initial_state in_order net_down]
    handleAutoSelect_rejects[of "select_state 12 0 (Some 0)" in_order net_down]
    handleAutoSelect_rejects[of "select_state 12 0 (Some (- 5))" in_order net_down]
  by (simp add: initial_state_def select_state_def)

text \<open>
  Claim C1, amended.  The source serves the dataset \<open>ds\<close>, the cache holds only pages of
  \<open>ds\<close> at the current page size, the page size is at least 1 and the offset is not
  negative.  Then a bulk selection of \<open>c > 0\<close> records returns, and the selection is the
  linear scan of the normalised dataset from the offset of the current page,
  \<open>(currentPage - 1) * rows\<close>: the first \<open>c\<close> records from there on, in dataset order, as
  many as \<open>min c (length ds - offset)\<close>.  The selection loop on three pages of twelve
  records and a count of 20 takes 12, 8 and 0 records, 20 in all.
\<close>

theorem handleAutoSelect_linear_scan:
  assumes "1 \<le> rows s" and "0 \<le> first s" and "selectCount s = Some c" and "0 < c"
    and "\<forall>p pg. pageCache s p = Some pg \<longrightarrow> pg = map mapItem (datasetPage ds (rows s) p)"
  shows "(\<exists>s'. handleAutoSelect latency (serve ds) s = Some s' \<and>
            selectedArtworks s'
              = take (nat c) (drop (nat (first s div rows s * rows s)) (map mapItem ds)) \<and>
            length (selectedArtworks s')
              = min (nat c) (length ds - nat (first s div rows s * rows s)) \<and>
            isSelecting s' = False) \<and>
         (length p1 = 12 \<and> length p2 = 12 \<and> length p3 = 12 \<longrightarrow>
            selectLoop [1 \<mapsto> p1, 2 \<mapsto> p2, 3 \<mapsto> p3] Map.empty [1, 2, 3] [] 20
              = take 12 p1 @ take 8 p2 @ take 0 p3 \<and>
            length (selectLoop [1 \<mapsto> p1, 2 \<mapsto> p2, 3 \<mapsto> p3] Map.empty [1, 2, 3] [] 20) = 20)"
proof (intro conjI impI)
  from assms(5) have cons: "\<And>p pg. pageCache s p = Some pg \<Longrightarrow>
      pg = map mapItem (datasetPage ds (rows s) p)" by blast
  from handleAutoSelect_scan[OF assms(1-4) cons, of latency]
  obtain s' where s': "handleAutoSelect latency (serve ds) s = Some s'"
      "selectedArtworks s' = take (nat c) (drop (nat (first s div rows s * rows s)) (map mapItem ds))"
      "isSelecting s' = False"
    by blast
  have "length (selectedArtworks s') = min (nat c) (length ds - nat (first s div rows s * rows s))"
    by (simp add: s'(2) min.commute)
  with s' show "\<exists>s'. handleAutoSelect latency (serve ds) s = Some s' \<and>
            selectedArtworks s'
              = take (nat c) (drop (nat (first s div rows s * rows s)) (map mapItem ds)) \<and>
            length (selectedArtworks s')
              = min (nat c) (length ds - nat (first s div rows s * rows s)) \<and>
            isSelecting s' = False"
    by blast
next
  assume l: "length p1 = 12 \<and> length p2 = 12 \<and> length p3 = 12"
  then show "selectLoop [1 \<mapsto> p1, 2 \<mapsto> p2, 3 \<mapsto> p3] Map.empty [1, 2, 3] [] 20
              = take 12 p1 @ take 8 p2 @ take 0 p3"
    by (simp add: pageData_def slice0_def Let_def)
  with l show "length (selectLoop [1 \<mapsto> p1, 2 \<mapsto> p2, 3 \<mapsto> p3] Map.empty [1, 2, 3] [] 20) = 20"
    by simp
qed

theorem handleAutoSelect_linear_scan_witness:
  "(1 \<le> rows (on_page2 (dataset 30) 20) \<and> 0 \<le> first (on_page2 (dataset 30) 20) \<and>
    selectCount (on_page2 (dataset 30) 20) = Some 20 \<and> (0 :: int) < 20 \<and>
    pageCache (on_page2 (dataset 30) 20)
      = [1 \<mapsto> map mapItem (datasetPage (dataset 30) (rows (on_page2 (dataset 30) 20)) 1),
         2 \<mapsto> map mapItem (datasetPage (dataset 30) (rows (on_page2 (dataset 30) 20)) 2)]) \<and>
   (\<exists>s'. handleAutoSelect reversed (serve (dataset 30)) (on_page2 (dataset 30) 20) = Some s' \<and>
        selectedArtworks s' = take 20 (drop 12 (map mapItem (dataset 30))) \<and>
        length (selectedArtworks s') = 18 \<and>
        isSelecting s' = False) \<and>
   (length (replicate 12 (1 :: nat)) = 12 \<and> length (replicate 12 (2 :: nat)) = 12 \<and>
    length (replicate 12 (3 :: nat)) = 12) \<and>
   selectLoop [1 \<mapsto> replicate 12 (1 :: nat), 2 \<mapsto> replicate 12 2, 3 \<mapsto> replicate 12 3]
       Map.empty [1, 2, 3] [] 20
     = replicate 12 1 @ replicate 8 2"
  using handleAutoSelect_linear_scan[where s = "on_page2 (dataset 30) 20" and c = 20
          and ds = "dataset 30" and latency = reversed
          and ?p1.0 = "replicate 12 (1 :: nat)" and ?p2.0 = "replicate 12 (2 :: nat)"
          and ?p3.0 = "replicate 12 (3 :: nat)"]
  by (simp add: on_page2_fields dataset_def)

text \<open>
  The claim as stated promises \<open>min(desiredCount, totalRecords)\<close> records.  On the
  second page of a dataset of 13 records a bulk selection of 2 selects the one record that
  is left from the offset of that page on.
\<close>

theorem bulk_count_counterexample:
  "selectCount (on_page2 (dataset 13) 2) = Some 2 \<and>
   totalRecords (on_page2 (dataset 13) 2) = 13 \<and>
   map_option selectedArtworks
     (handleAutoSelect in_order (serve (dataset 13)) (on_page2 (dataset 13) 2))
     = Some [mapItem (artwork 13)] \<and>
   length [mapItem (artwork 13)] \<noteq> min 2 13"
proof -
  have "\<exists>s'. handleAutoSelect in_order (serve (dataset 13)) (on_page2 (dataset 13) 2) = Some s' \<and>
           selectedArtworks s'
             = take (nat 2) (drop (nat (first (on_page2 (dataset 13) 2)
                  div rows (on_page2 (dataset 13) 2) * rows (on_page2 (dataset 13) 2)))
                 (map mapItem (dataset 13))) \<and>
           isSelecting s' = False"
    by (rule handleAutoSelect_scan) (auto simp: on_page2_fields split: if_splits)
  moreover have "take (nat 2) (drop (nat (12 div 12 * 12)) (map mapItem (dataset 13)))
      = [mapItem (artwork 13)]"
    by (simp add: dataset_def upto_rec1)
  moreover have "length (dataset 13) = 13" by (simp add: dataset_def)
  ultimately show ?thesis by (auto simp: on_page2_fields)
qed

text \<open>
  Claim C6.  \<open>F\<close> is a set of pages that are absent from the cache and whose fetch fails
  whenever it is tried.  A bulk selection of \<open>c > 0\<close> records at a page size of at least
  1 still returns, with the busy flag cleared.  The pages of \<open>F\<close> are absent from the cache
  afterwards and contribute nothing: the selection is the first \<open>c\<close> records of the other
  planned pages, each with the records the cache holds for it, in plan order.
\<close>

theorem handleAutoSelect_partial_failure:
  assumes "1 \<le> rows s" and "selectCount s = Some c" and "0 < c"
    and "\<forall>p\<in>F. pageCache s p = None \<and> (\<forall>k. decodePage (net k p (rows s)) = None)"
  shows "\<exists>s' plan.
           calculatePagesNeeded (rows s) c (first s div rows s + 1) = Some plan \<and>
           handleAutoSelect latency net s = Some s' \<and>
           isSelecting s' = False \<and>
           (\<forall>p\<in>F. pageCache s' p = None) \<and>
           selectedArtworks s'
             = take (nat c) (concat (map (cachedPage (pageCache s'))
                                         (filter (\<lambda>p. p \<notin> F) plan)))"
proof -
  let ?cp = "first s div rows s + 1"
  let ?plan = "[?cp .. ?cp + (c + rows s - 1) div rows s - 1]"
  let ?s2 = "snd (prefetchPages latency net ?plan (s\<lparr>isSelecting := True\<rparr>))"
  let ?s' = "?s2\<lparr>selectedArtworks := take (nat c) (concat (map (cachedPage (pageCache ?s2)) ?plan)),
                 isSelecting := False\<rparr>"
  have plan: "calculatePagesNeeded (rows s) c ?cp = Some ?plan"
    using assms(1,3) by (rule plan_of_count)
  have run: "handleAutoSelect latency net s = Some ?s'"
    using assms(1-3) plan by (rule handleAutoSelect_eq)
  have failed: "pageCache ?s2 p = None" if "p \<in> F" for p
  proof -
    from that assms(4) have "pageCache s p = None" "\<And>k. decodePage (net k p (rows s)) = None"
      by auto
    then have "fst (prefetchPages latency net ?plan (s\<lparr>isSelecting := True\<rparr>)) p = None"
      by (intro prefetchPages_failed) simp_all
    with \<open>pageCache s p = None\<close> show ?thesis
      by (simp add: prefetchPages_cache map_add_def)
  qed
  then have "concat (map (cachedPage (pageCache ?s2)) ?plan)
      = concat (map (cachedPage (pageCache ?s2)) (filter (\<lambda>p. p \<notin> F) ?plan))"
    by (intro concat_skip_empty) (simp add: cachedPage_def)
  then have sel: "selectedArtworks ?s'
      = take (nat c) (concat (map (cachedPage (pageCache ?s')) (filter (\<lambda>p. p \<notin> F) ?plan)))"
    by simp
  have "isSelecting ?s' = False" "\<forall>p\<in>F. pageCache ?s' p = None"
    using failed by simp_all
  with plan run sel show ?thesis by blast
qed

theorem handleAutoSelect_partial_failure_witness:
  "(1 \<le> rows (select_state 2 0 (Some 5)) \<and> selectCount (select_state 2 0 (Some 5)) = Some 5 \<and>
    (0 :: int) < 5 \<and>
    pageCache (select_state 2 0 (Some 5)) 2 = None \<and>
    (\<forall>k. decodePage (net_page2_down (dataset 7) k 2 (rows (select_state 2 0 (Some 5)))) = None)) \<and>
   (\<exists>s'.
      handleAutoSelect reversed (net_page2_down (dataset 7)) (select_state 2 0 (Some 5)) = Some s' \<and>
      isSelecting s' = False \<and>
      pageCache s' 2 = None \<and>
      selectedArtworks s'
        = take 5 (concat (map (cachedPage (pageCache s')) [1, 3])) \<and>
      selectedArtworks s' = map mapItem [artwork 1, artwork 2, artwork 5, artwork 6])"
proof -
  have h: "1 \<le> rows (select_state 2 0 (Some 5))" "selectCount (select_state 2 0 (Some 5)) = Some 5"
    "(0 :: int) < 5"
    "\<forall>p\<in>{2}. pageCache (select_state 2 0 (Some 5)) p = None \<and>
       (\<forall>k. decodePage (net_page2_down (dataset 7) k p (rows (select_state 2 0 (Some 5)))) = None)"
    by (simp_all add: select_state_def initial_state_def net_page2_down_def decodePage_def)
  have e: "calculatePagesNeeded (rows (select_state 2 0 (Some 5))) 5
      (first (select_state 2 0 (Some 5)) div rows (select_state 2 0 (Some 5)) + 1) = Some [1, 2, 3]"
    by (simp add: calculatePagesNeeded_def pagesLoop.simps select_state_def initial_state_def)
  have v: "map_option selectedArtworks
     (handleAutoSelect reversed (net_page2_down (dataset 7)) (select_state 2 0 (Some 5)))
     = Some (map mapItem [artwork 1, artwork 2, artwork 5, artwork 6])"
    using e
    by (simp add: handleAutoSelect_def select_state_def initial_state_def
          prefetchPages_def prefetchStart_def prefetchSettle_def reversed_def net_page2_down_def
          serve_def datasetPage_def dataset_def decodePage_def pageData_def slice0_def upto_rec1)
  from handleAutoSelect_partial_failure[where s = "select_state 2 0 (Some 5)" and c = 5
      and F = "{2}" and net = "net_page2_down (dataset 7)" and latency = reversed, OF h]
  obtain s' where s': "handleAutoSelect reversed (net_page2_down (dataset 7))
        (select_state 2 0 (Some 5)) = Some s'"
      "isSelecting s' = False" "pageCache s' 2 = None"
      "selectedArtworks s' = take 5 (concat (map (cachedPage (pageCache s')) [1, 3]))"
    by (auto simp: e)
  from v s'(1) have "selectedArtworks s' = map mapItem [artwork 1, artwork 2, artwork 5, artwork 6]"
    by simp
  with s' h show ?thesis by auto
qed

text \<open>
  Claim C8.  Two runs of a bulk selection from the same state against the same source, with
  any two arrival orders of the responses, end with the same selection and the same page
  cache.  The selection is a function of the count, the plan and
  the cache after the prefetch: the first \<open>c\<close> records of the planned pages, in plan
  order, each page with the records the cache holds for it.
\<close>

theorem handleAutoSelect_arrival_order:
  "map_option selectedArtworks (handleAutoSelect l1 net s)
     = map_option selectedArtworks (handleAutoSelect l2 net s) \<and>
   map_option pageCache (handleAutoSelect l1 net s)
     = map_option pageCache (handleAutoSelect l2 net s) \<and>
   (1 \<le> rows s \<and> selectCount s = Some c \<and> 0 < c \<longrightarrow>
      (\<exists>s' plan.
         calculatePagesNeeded (rows s) c (first s div rows s + 1) = Some plan \<and>
         handleAutoSelect l1 net s = Some s' \<and>
         selectedArtworks s' = take (nat c) (concat (map (cachedPage (pageCache s')) plan))))"
proof -
  have order: "map_option selectedArtworks (handleAutoSelect l1 net s)
         = map_option selectedArtworks (handleAutoSelect l2 net s) \<and>
       map_option pageCache (handleAutoSelect l1 net s)
         = map_option pageCache (handleAutoSelect l2 net s)"
  proof (cases "selectCount s")
    case None
    then show ?thesis by (simp add: handleAutoSelect_def)
  next
    case (Some n)
    show ?thesis
    proof (cases "n \<le> 0")
      case True
      with Some show ?thesis by (simp add: handleAutoSelect_def)
    next
      case False
      then have n: "0 < n" by simp
      show ?thesis
      proof (cases "1 \<le> rows s")
        case False
        with Some n show ?thesis by (simp add: handleAutoSelect_throws)
      next
        case True
        let ?plan = "[first s div rows s + 1 .. first s div rows s + 1 + (n + rows s - 1) div rows s - 1]"
        have plan: "calculatePagesNeeded (rows s) n (first s div rows s + 1) = Some ?plan"
          using True n by (rule plan_of_count)
        have "distinct ?plan" by simp
        then have "fst (prefetchPages l1 net ?plan (s\<lparr>isSelecting := True\<rparr>))
            = fst (prefetchPages l2 net ?plan (s\<lparr>isSelecting := True\<rparr>))"
          by (rule prefetchPages_latency)
        then have "pageCache (snd (prefetchPages l1 net ?plan (s\<lparr>isSelecting := True\<rparr>)))
            = pageCache (snd (prefetchPages l2 net ?plan (s\<lparr>isSelecting := True\<rparr>)))"
          by (simp add: prefetchPages_cache)
        then show ?thesis
          by (simp add: handleAutoSelect_eq[OF True Some n plan])
      qed
    qed
  qed
  have cache: "\<exists>s' plan.
         calculatePagesNeeded (rows s) c (first s div rows s + 1) = Some plan \<and>
         handleAutoSelect l1 net s = Some s' \<and>
         selectedArtworks s' = take (nat c) (concat (map (cachedPage (pageCache s')) plan))"
    if a: "1 \<le> rows s \<and> selectCount s = Some c \<and> 0 < c"
  proof -
    let ?plan = "[first s div rows s + 1 .. first s div rows s + 1 + (c + rows s - 1) div rows s - 1]"
    have plan: "calculatePagesNeeded (rows s) c (first s div rows s + 1) = Some ?plan"
      using a by (intro plan_of_count) simp_all
    from a have "1 \<le> rows s" "selectCount s = Some c" "0 < c" by simp_all
    from handleAutoSelect_eq[OF this plan, of l1 net] plan show ?thesis by simp
  qed
  from order cache show ?thesis by blast
qed

theorem handleAutoSelect_arrival_order_witness:
  "(1 \<le> rows (select_state 2 0 (Some 5)) \<and> selectCount (select_state 2 0 (Some 5)) = Some 5 \<and>
    (0 :: int) < 5) \<and>
   map_option selectedArtworks
       (handleAutoSelect in_order (net_page2_down (dataset 7)) (select_state 2 0 (Some 5)))
     = map_option selectedArtworks
       (handleAutoSelect reversed (net_page2_down (dataset 7)) (select_state 2 0 (Some 5))) \<and>
   (\<exists>s' plan.
      calculatePagesNeeded (rows (select_state 2 0 (Some 5))) 5
        (first (select_state 2 0 (Some 5)) div rows (select_state 2 0 (Some 5)) + 1) = Some plan \<and>
      handleAutoSelect in_order (net_page2_down (dataset 7)) (select_state 2 0 (Some 5)) = Some s' \<and>
      selectedArtworks s' = take (nat 5) (concat (map (cachedPage (pageCache s')) plan)))"
proof -
  have h: "1 \<le> rows (select_state 2 0 (Some 5)) \<and> selectCount (select_state 2 0 (Some 5)) = Some 5 \<and>
    (0 :: int) < 5"
    by (simp add: select_state_def initial_state_def)
  from handleAutoSelect_arrival_order[of in_order "net_page2_down (dataset 7)"
      "select_state 2 0 (Some 5)" reversed 5] h
  show ?thesis by blast
qed

end
